theory Spec2Isabelle
  imports Main
begin

section \<open>Data model\<close>

text \<open>
  A Python \<open>str\<close> is a sequence of Unicode code points (what \<open>ord\<close> gives, from 0 to
  0x10FFFF), a \<open>bytes\<close> object a sequence of octets (0 to 255), and a Python integer is
  unbounded.
\<close>

type_synonym str = "int list"
type_synonym bytes = "int list"

text \<open>ASCII literals of the source, as code points.\<close>

definition ascii :: "string \<Rightarrow> str" where
  "ascii cs = map of_char cs"

subsection \<open>Exceptions and randomness\<close>

text \<open>
  The exceptions the modelled code can raise, each with the text \<open>str(e)\<close> gives.
\<close>

datatype error =
    ValueError string
  | OverflowError string
  | UnicodeEncodeError string
  | UnicodeDecodeError string
  | TypeError string
  | KeyError string

fun str_of_error :: "error \<Rightarrow> str" where
  "str_of_error (ValueError msg) = ascii msg"
| "str_of_error (OverflowError msg) = ascii msg"
| "str_of_error (UnicodeEncodeError msg) = ascii msg"
| "str_of_error (UnicodeDecodeError msg) = ascii msg"
| "str_of_error (TypeError msg) = ascii msg"
| "str_of_error (KeyError msg) = ascii msg"

text \<open>
  The random sources (\<open>secrets\<close>, \<open>random\<close>) are a tape of integers: each draw takes
  the next entry and reduces it into the range the call asks for (an entry of the range
  is returned as it is), so every value the library may return is the outcome of some
  tape. A computation that draws returns
  \<open>None\<close> when it does not finish on the entries it is given (the tape is used up, or
  a loop runs forever), \<open>Some (Inl e)\<close> when it raises \<open>e\<close>, and \<open>Some (Inr (v, rest))\<close>
  when it returns \<open>v\<close>, leaving \<open>rest\<close> of the tape.
\<close>

type_synonym tape = "int list"
type_synonym 'a run = "(error + 'a \<times> tape) option"

fun randrange :: "int \<Rightarrow> int \<Rightarrow> tape \<Rightarrow> int run" where
  "randrange start stop t =
     (if stop \<le> start then Some (Inl (ValueError ''empty range for randrange()''))
      else (case t of [] \<Rightarrow> None
            | r # rest \<Rightarrow> Some (Inr (start + (r - start) mod (stop - start), rest))))"

fun randbits :: "int \<Rightarrow> tape \<Rightarrow> int run" where
  "randbits k t =
     (if k < 0 then Some (Inl (ValueError ''number of bits must be non-negative''))
      else (case t of [] \<Rightarrow> None
            | r # rest \<Rightarrow> Some (Inr (r mod 2 ^ nat k, rest))))"

declare randrange.simps [simp del] randbits.simps [simp del]

subsection \<open>Cryptographic tools\<close>

text \<open>
  The built-in \<open>pow(a, b, c)\<close>. \<open>modpow\<close> is square-and-multiply for a non-negative
  exponent and a modulus above 1 (\<open>z\<close> is the result so far, \<open>a\<close> the running square); \<open>invmod\<close> is the inverse of \<open>a\<close> in \<open>[0, m)\<close>, if
  there is one. A zero modulus and a base that has no inverse raise \<open>ValueError\<close>; with a
  negative modulus the result takes its sign.
\<close>

function modpow_loop :: "int \<Rightarrow> int \<Rightarrow> int \<Rightarrow> int \<Rightarrow> int" where
  "modpow_loop z a b c =
     (if b \<le> 0 then z
      else modpow_loop (if b mod 2 = 1 then z * a mod c else z) (a * a mod c) (b div 2) c)"
  by pat_completeness auto
termination
  by (relation "measure (\<lambda>(z, a, b, c). nat b)") auto

declare modpow_loop.simps [simp del]

definition modpow :: "int \<Rightarrow> int \<Rightarrow> int \<Rightarrow> int" where
  "modpow a b c = modpow_loop (1 mod c) (a mod c) b c"

definition invmod :: "int \<Rightarrow> int \<Rightarrow> int option" where
  "invmod a m = find (\<lambda>x. a * x mod m = 1) [0..m - 1]"

definition pow_mod :: "int \<Rightarrow> int \<Rightarrow> int \<Rightarrow> error + int" where
  "pow_mod a b c =
     (if c = 0 then Inl (ValueError ''pow() 3rd argument cannot be 0'')
      else if \<bar>c\<bar> = 1 then Inr 0
      else (case (if b < 0 then invmod a \<bar>c\<bar> else Some a) of
              None \<Rightarrow> Inl (ValueError ''base is not invertible for the given modulus'')
            | Some a' \<Rightarrow>
                (let z = modpow a' \<bar>b\<bar> \<bar>c\<bar>
                 in Inr (if c < 0 \<and> z \<noteq> 0 then z - \<bar>c\<bar> else z))))"

text \<open>\<open>is_prime\<close>: the loop \<open>while s % 2 == 0\<close>, which does not end on \<open>s = 0\<close>.\<close>

partial_function (option) split_even :: "int \<Rightarrow> int \<Rightarrow> (int \<times> int) option" where
  "split_even r s = (if s mod 2 = 0 then split_even (r + 1) (s div 2) else Some (r, s))"

declare split_even.simps [code]

text \<open>
  The inner loop \<open>for _ in range(r - 1)\<close>: \<open>True\<close> when it is left by \<open>break\<close>,
  \<open>False\<close> when it runs to its \<open>else\<close>.
\<close>

fun squarings :: "nat \<Rightarrow> int \<Rightarrow> int \<Rightarrow> error + bool" where
  "squarings 0 x n = Inr False"
| "squarings (Suc j) x n =
     (case pow_mod x 2 n of
        Inl e \<Rightarrow> Inl e
      | Inr x' \<Rightarrow> if x' = n - 1 then Inr True else squarings j x' n)"

text \<open>The outer loop \<open>for _ in range(k)\<close>, one witness \<open>a\<close> drawn per round.\<close>

fun witness_rounds :: "nat \<Rightarrow> int \<Rightarrow> int \<Rightarrow> int \<Rightarrow> tape \<Rightarrow> bool run" where
  "witness_rounds 0 n r s t = Some (Inr (True, t))"
| "witness_rounds (Suc k) n r s t =
     (case randrange 2 (n - 1) t of
        None \<Rightarrow> None
      | Some (Inl e) \<Rightarrow> Some (Inl e)
      | Some (Inr (a, t')) \<Rightarrow>
          (case pow_mod a s n of
             Inl e \<Rightarrow> Some (Inl e)
           | Inr x \<Rightarrow>
               if x = 1 \<or> x = n - 1 then witness_rounds k n r s t'
               else (case squarings (nat (r - 1)) x n of
                       Inl e \<Rightarrow> Some (Inl e)
                     | Inr True \<Rightarrow> witness_rounds k n r s t'
                     | Inr False \<Rightarrow> Some (Inr (False, t')))))"

definition is_prime :: "int \<Rightarrow> int \<Rightarrow> tape \<Rightarrow> bool run" where
  "is_prime n k t =
     (if n < 2 then Some (Inr (False, t))
      else if n = 2 \<or> n = 3 then Some (Inr (True, t))
      else if n mod 2 = 0 then Some (Inr (False, t))
      else (case split_even 0 (n - 1) of
              None \<Rightarrow> None
            | Some (r, s) \<Rightarrow> witness_rounds (nat k) n r s t))"

lemma randrange_rest:
  "randrange start stop t = Some (Inr (v, t')) \<Longrightarrow> length t' < length t"
  by (auto simp: randrange.simps split: if_splits list.splits)

lemma randbits_rest:
  "randbits k t = Some (Inr (v, t')) \<Longrightarrow> length t' < length t"
  by (auto simp: randbits.simps split: if_splits list.splits)

lemma witness_rounds_rest:
  "witness_rounds k n r s t = Some (Inr (b, t')) \<Longrightarrow> length t' \<le> length t"
proof (induction k arbitrary: t)
  case 0
  then show ?case by simp
next
  case (Suc k)
  show ?case
  proof (cases "randrange 2 (n - 1) t")
    case None
    with Suc.prems show ?thesis by simp
  next
    case (Some res)
    show ?thesis
    proof (cases res)
      case (Inl e)
      with Some Suc.prems show ?thesis by simp
    next
      case (Inr at)
      obtain a t1 where at: "at = (a, t1)" by (cases at)
      from Some Inr at have draw: "randrange 2 (n - 1) t = Some (Inr (a, t1))" by simp
      have shorter: "length t1 < length t" using draw by (rule randrange_rest)
      have "witness_rounds k n r s t1 = Some (Inr (b, t')) \<or> t' = t1"
        using Suc.prems unfolding witness_rounds.simps draw
        by (auto split: sum.splits if_splits bool.splits)
      then show ?thesis
      proof
        assume "witness_rounds k n r s t1 = Some (Inr (b, t'))"
        then have "length t' \<le> length t1" by (rule Suc.IH)
        with shorter show ?thesis by simp
      next
        assume "t' = t1"
        with shorter show ?thesis by simp
      qed
    qed
  qed
qed

lemma is_prime_rest:
  "is_prime n k t = Some (Inr (b, t')) \<Longrightarrow> length t' \<le> length t"
  unfolding is_prime_def
  by (auto split: if_splits option.splits dest: witness_rounds_rest)

text \<open>\<open>generate_large_prime\<close>: the loop \<open>while True\<close>, one candidate per turn.\<close>

function generate_large_prime :: "int \<Rightarrow> tape \<Rightarrow> int run" where
  "generate_large_prime bits t =
     (case randbits bits t of
        None \<Rightarrow> None
      | Some (Inl e) \<Rightarrow> Some (Inl e)
      | Some (Inr (num0, t1)) \<Rightarrow>
          (let num = (if num0 mod 2 = 0 then num0 + 1 else num0)
           in case is_prime num 5 t1 of
                None \<Rightarrow> None
              | Some (Inl e) \<Rightarrow> Some (Inl e)
              | Some (Inr (True, t2)) \<Rightarrow> Some (Inr (num, t2))
              | Some (Inr (False, t2)) \<Rightarrow> generate_large_prime bits t2))"
  by pat_completeness auto
termination
proof (relation "measure (\<lambda>(bits, t). length t)")
  show "wf (measure (\<lambda>(bits, t). length t))" by simp
next
  fix bits :: int and t :: tape and x2 x2a x1 t1 num x2b x2c x1b t2
  assume "randbits bits t = Some x2" "x2 = Inr x2a" "(x1, t1) = x2a"
    and "is_prime num 5 t1 = Some x2b" "x2b = Inr x2c" "(x1b, t2) = x2c"
  then have "randbits bits t = Some (Inr (x1, t1))"
    and "is_prime num 5 t1 = Some (Inr (x1b, t2))" by simp_all
  then have "length t1 < length t" and "length t2 \<le> length t1"
    by (auto dest: randbits_rest is_prime_rest)
  then show "((bits, t2), (bits, t)) \<in> measure (\<lambda>(bits, t). length t)" by simp
qed

declare generate_large_prime.simps [simp del]

text \<open>\<open>gcd\<close> of the source: Euclid's loop \<open>while b\<close>.\<close>

function gcd_loop :: "int \<Rightarrow> int \<Rightarrow> int" where
  "gcd_loop a b = (if b \<noteq> 0 then gcd_loop b (a mod b) else a)"
  by pat_completeness auto
termination
  by (relation "measure (\<lambda>(a, b). nat \<bar>b\<bar>)")
     (auto simp: abs_mod_less)

declare gcd_loop.simps [simp del]

definition modinv :: "int \<Rightarrow> int \<Rightarrow> error + int" where
  "modinv a m = pow_mod a (- 1) m"

text \<open>\<open>generate_keypair\<close>: the loop \<open>while g != 1\<close>, which draws a new exponent.\<close>

function choose_e :: "int \<Rightarrow> int \<Rightarrow> int \<Rightarrow> tape \<Rightarrow> int run" where
  "choose_e e g phi t =
     (if g \<noteq> 1 then
        (case randrange 1 phi t of
           None \<Rightarrow> None
         | Some (Inl err) \<Rightarrow> Some (Inl err)
         | Some (Inr (e', t')) \<Rightarrow> choose_e e' (gcd_loop e' phi) phi t')
      else Some (Inr (e, t)))"
  by pat_completeness auto
termination
proof (relation "measure (\<lambda>(e, g, phi, t). length t)")
  show "wf (measure (\<lambda>(e, g, phi, t). length t))" by simp
next
  fix e g phi :: int and t :: tape and x2 x2a e' t'
  assume "randrange 1 phi t = Some x2" "x2 = Inr x2a" "(e', t') = x2a"
  then have "randrange 1 phi t = Some (Inr (e', t'))" by simp
  then have "length t' < length t" by (rule randrange_rest)
  then show "((e', gcd_loop e' phi, phi, t'), (e, g, phi, t))
               \<in> measure (\<lambda>(e, g, phi, t). length t)" by simp
qed

declare choose_e.simps [simp del]

type_synonym key = "int \<times> int"

definition generate_keypair :: "int \<Rightarrow> tape \<Rightarrow> (key \<times> key) run" where
  "generate_keypair bits t =
     (case generate_large_prime (bits div 2) t of
        None \<Rightarrow> None
      | Some (Inl err) \<Rightarrow> Some (Inl err)
      | Some (Inr (p, t1)) \<Rightarrow>
          (case generate_large_prime (bits div 2) t1 of
             None \<Rightarrow> None
           | Some (Inl err) \<Rightarrow> Some (Inl err)
           | Some (Inr (q, t2)) \<Rightarrow>
               (let n = p * q; phi = (p - 1) * (q - 1)
                in case choose_e 65537 (gcd_loop 65537 phi) phi t2 of
                     None \<Rightarrow> None
                   | Some (Inl err) \<Rightarrow> Some (Inl err)
                   | Some (Inr (e, t3)) \<Rightarrow>
                       (case modinv e phi of
                          Inl err \<Rightarrow> Some (Inl err)
                        | Inr d \<Rightarrow> Some (Inr (((e, n), (d, n)), t3))))))"

subsection \<open>Bit length\<close>

text \<open>\<open>int.bit_length()\<close>: the number of bits of the absolute value.\<close>

function bit_length_loop :: "int \<Rightarrow> int" where
  "bit_length_loop x = (if x \<le> 0 then 0 else 1 + bit_length_loop (x div 2))"
  by pat_completeness auto
termination
  by (relation "measure nat") auto

declare bit_length_loop.simps [simp del]

definition bit_length :: "int \<Rightarrow> int" where
  "bit_length x = bit_length_loop \<bar>x\<bar>"

subsection \<open>Codec: text, bytes and integers\<close>

text \<open>
  \<open>str.encode('utf-8')\<close>, one code point at a time. A surrogate (0xD800 to 0xDFFF) raises
  \<open>UnicodeEncodeError\<close>; so does, in this model, a number that is no code point at all.
\<close>

definition encode_cp :: "int \<Rightarrow> error + bytes" where
  "encode_cp c =
     (if c < 0 \<or> 1114112 \<le> c then Inl (UnicodeEncodeError ''not a code point'')
      else if c < 128 then Inr [c]
      else if c < 2048 then Inr [192 + c div 64, 128 + c mod 64]
      else if 55296 \<le> c \<and> c \<le> 57343 then Inl (UnicodeEncodeError ''surrogates not allowed'')
      else if c < 65536 then
        Inr [224 + c div 4096, 128 + (c div 64) mod 64, 128 + c mod 64]
      else
        Inr [240 + c div 262144, 128 + (c div 4096) mod 64, 128 + (c div 64) mod 64,
             128 + c mod 64])"

fun utf8_encode :: "str \<Rightarrow> error + bytes" where
  "utf8_encode [] = Inr []"
| "utf8_encode (c # cs) =
     (case encode_cp c of
        Inl e \<Rightarrow> Inl e
      | Inr bs \<Rightarrow> (case utf8_encode cs of Inl e \<Rightarrow> Inl e | Inr rest \<Rightarrow> Inr (bs @ rest)))"

text \<open>
  \<open>bytes.decode('utf-8')\<close>, strict: a wrong lead or continuation byte, a truncated
  sequence, an overlong form, a surrogate and a value above 0x10FFFF raise
  \<open>UnicodeDecodeError\<close>.
\<close>

definition continuation :: "int \<Rightarrow> bool" where
  "continuation b = (128 \<le> b \<and> b < 192)"

definition invalid_utf8 :: "error + str" where
  "invalid_utf8 = Inl (UnicodeDecodeError ''invalid utf-8'')"

definition decoded :: "int \<Rightarrow> error + str \<Rightarrow> error + str" where
  "decoded c r = (case r of Inl e \<Rightarrow> Inl e | Inr cs \<Rightarrow> Inr (c # cs))"

fun utf8_decode :: "bytes \<Rightarrow> error + str" where
  "utf8_decode [] = Inr []"
| "utf8_decode (b0 # bs) =
     (if 0 \<le> b0 \<and> b0 < 128 then decoded b0 (utf8_decode bs)
      else if 194 \<le> b0 \<and> b0 < 224 then
        (case bs of
           b1 # r \<Rightarrow>
             if continuation b1 then decoded ((b0 - 192) * 64 + (b1 - 128)) (utf8_decode r)
             else invalid_utf8
         | _ \<Rightarrow> invalid_utf8)
      else if 224 \<le> b0 \<and> b0 < 240 then
        (case bs of
           b1 # b2 # r \<Rightarrow>
             (let c = (b0 - 224) * 4096 + (b1 - 128) * 64 + (b2 - 128)
              in if continuation b1 \<and> continuation b2 \<and> 2048 \<le> c
                    \<and> \<not> (55296 \<le> c \<and> c \<le> 57343)
                 then decoded c (utf8_decode r) else invalid_utf8)
         | _ \<Rightarrow> invalid_utf8)
      else if 240 \<le> b0 \<and> b0 < 245 then
        (case bs of
           b1 # b2 # b3 # r \<Rightarrow>
             (let c = (b0 - 240) * 262144 + (b1 - 128) * 4096 + (b2 - 128) * 64 + (b3 - 128)
              in if continuation b1 \<and> continuation b2 \<and> continuation b3
                    \<and> 65536 \<le> c \<and> c < 1114112
                 then decoded c (utf8_decode r) else invalid_utf8)
         | _ \<Rightarrow> invalid_utf8)
      else invalid_utf8)"

text \<open>\<open>int.from_bytes(bs, byteorder='big')\<close> and \<open>number.to_bytes(length, byteorder='big')\<close>.\<close>

definition from_bytes :: "bytes \<Rightarrow> int" where
  "from_bytes bs = foldl (\<lambda>acc b. acc * 256 + b) 0 bs"

fun big_endian :: "nat \<Rightarrow> int \<Rightarrow> bytes" where
  "big_endian 0 x = []"
| "big_endian (Suc l) x = big_endian l (x div 256) @ [x mod 256]"

definition to_bytes :: "int \<Rightarrow> int \<Rightarrow> error + bytes" where
  "to_bytes number len =
     (if len < 0 then Inl (ValueError ''length argument must be non-negative'')
      else if number < 0 then Inl (OverflowError ''can't convert negative int to unsigned'')
      else if 256 ^ nat len \<le> number then Inl (OverflowError ''int too big to convert'')
      else Inr (big_endian (nat len) number))"

definition str_to_int :: "str \<Rightarrow> error + int" where
  "str_to_int message =
     (case utf8_encode message of
        Inl e \<Rightarrow> Inl e
      | Inr message_bytes \<Rightarrow> Inr (from_bytes message_bytes))"

text \<open>\<open>int_to_str\<close>: the bare \<open>except\<close> turns every exception into \<open>None\<close>.\<close>

definition int_to_str :: "int \<Rightarrow> str option" where
  "int_to_str number =
     (let len = (bit_length number + 7) div 8
      in case to_bytes number len of
           Inl e \<Rightarrow> None
         | Inr bs \<Rightarrow> (case utf8_decode bs of Inl e \<Rightarrow> None | Inr s \<Rightarrow> Some s))"

subsection \<open>Commissaire\<close>

record Commissaire =
  valid_n1 :: "str set"
  hashed_n2 :: "str set"

definition Commissaire_init :: Commissaire where
  "Commissaire_init = \<lparr>valid_n1 = {}, hashed_n2 = {}\<rparr>"

definition charger_listes :: "str list \<Rightarrow> str list \<Rightarrow> Commissaire \<Rightarrow> Commissaire" where
  "charger_listes liste_n1 liste_hashed_n2 c =
     c\<lparr>valid_n1 := set liste_n1, hashed_n2 := set liste_hashed_n2\<rparr>"

definition verifier_n1 :: "Commissaire \<Rightarrow> str \<Rightarrow> bool" where
  "verifier_n1 c n1 = (n1 \<in> valid_n1 c)"

text \<open>\<open>consommer_n1\<close> returns its boolean together with the registry it leaves behind.\<close>

definition consommer_n1 :: "str \<Rightarrow> Commissaire \<Rightarrow> bool \<times> Commissaire" where
  "consommer_n1 n1 c =
     (if n1 \<in> valid_n1 c then (True, c\<lparr>valid_n1 := valid_n1 c - {n1}\<rparr>)
      else (False, c))"

text \<open>A run of further calls of \<open>consommer_n1\<close>, one per token of the list.\<close>

fun consommer_tous :: "str list \<Rightarrow> Commissaire \<Rightarrow> Commissaire" where
  "consommer_tous [] c = c"
| "consommer_tous (t # ts) c = consommer_tous ts (snd (consommer_n1 t c))"

subsection \<open>Administrateur\<close>

record Administrateur =
  public_key :: key
  private_key :: key

definition Administrateur_init :: "tape \<Rightarrow> Administrateur run" where
  "Administrateur_init t =
     (case generate_keypair 1024 t of
        None \<Rightarrow> None
      | Some (Inl err) \<Rightarrow> Some (Inl err)
      | Some (Inr ((pub, priv), t')) \<Rightarrow>
          Some (Inr (\<lparr>Administrateur.public_key = pub, private_key = priv\<rparr>, t')))"

definition verifier_eligibilite :: "Commissaire \<Rightarrow> str \<Rightarrow> bool" where
  "verifier_eligibilite commissaire n1 = verifier_n1 commissaire n1"

definition signer_aveugle :: "Administrateur \<Rightarrow> int \<Rightarrow> error + int" where
  "signer_aveugle admin blinded_message_int =
     (case Administrateur.private_key admin of
        (d, n) \<Rightarrow> pow_mod blinded_message_int d n)"

text \<open>
  Step 3 of \<open>submit_vote\<close>, the client's side of the blind signature. The loop
  \<open>while True\<close> draws the blinding factor \<open>k\<close>.
\<close>

function choose_k :: "int \<Rightarrow> tape \<Rightarrow> int run" where
  "choose_k n_admin t =
     (case randrange 2 (n_admin - 1) t of
        None \<Rightarrow> None
      | Some (Inl err) \<Rightarrow> Some (Inl err)
      | Some (Inr (k, t')) \<Rightarrow>
          if gcd_loop k n_admin = 1 then Some (Inr (k, t')) else choose_k n_admin t')"
  by pat_completeness auto
termination
proof (relation "measure (\<lambda>(n, t). length t)")
  show "wf (measure (\<lambda>(n, t). length t))" by simp
next
  fix n_admin :: int and t :: tape and x2 x2a k t'
  assume "randrange 2 (n_admin - 1) t = Some x2" "x2 = Inr x2a" "(k, t') = x2a"
  then have "randrange 2 (n_admin - 1) t = Some (Inr (k, t'))" by simp
  then have "length t' < length t" by (rule randrange_rest)
  then show "((n_admin, t'), (n_admin, t)) \<in> measure (\<lambda>(n, t). length t)" by simp
qed

declare choose_k.simps [simp del]

text \<open>
  Masking \<open>m' = m * k^e mod N\<close>, the signature \<open>s'\<close> of the Administrateur on \<open>m'\<close>, and
  unmasking \<open>s = s' * k^-1 mod N\<close>; the result is \<open>signature\<close>.
\<close>

definition masquer_signer_demasquer :: "Administrateur \<Rightarrow> int \<Rightarrow> int \<Rightarrow> error + int" where
  "masquer_signer_demasquer admin m_int k =
     (case Administrateur.public_key admin of
        (e_admin, n_admin) \<Rightarrow>
          (case pow_mod k e_admin n_admin of
             Inl err \<Rightarrow> Inl err
           | Inr blind_factor \<Rightarrow>
               (let m_prime = (m_int * blind_factor) mod n_admin
                in case signer_aveugle admin m_prime of
                     Inl err \<Rightarrow> Inl err
                   | Inr s_prime \<Rightarrow>
                       (case modinv k n_admin of
                          Inl err \<Rightarrow> Inl err
                        | Inr k_inv \<Rightarrow> Inr ((s_prime * k_inv) mod n_admin)))))"

subsection \<open>Primality\<close>

text \<open>A prime in the usual sense, as opposed to a number that passes \<open>is_prime\<close>.\<close>

definition premier :: "int \<Rightarrow> bool" where
  "premier p = (1 < p \<and> (\<forall>m \<in> {2..<p}. \<not> m dvd p))"


section \<open>One-time consumption of primary tokens\<close>

lemma consommer_n1_absent: "n1 \<notin> valid_n1 c \<Longrightarrow> consommer_n1 n1 c = (False, c)"
  by (simp add: consommer_n1_def)

lemma consommer_n1_shrinks: "valid_n1 (snd (consommer_n1 t c)) \<subseteq> valid_n1 c"
  by (auto simp: consommer_n1_def)

lemma consommer_tous_shrinks: "valid_n1 (consommer_tous ts c) \<subseteq> valid_n1 c"
proof (induction ts arbitrary: c)
  case Nil
  show ?case by simp
next
  case (Cons t ts)
  have "valid_n1 (consommer_tous ts (snd (consommer_n1 t c))) \<subseteq> valid_n1 (snd (consommer_n1 t c))"
    by (rule Cons.IH)
  also have "\<dots> \<subseteq> valid_n1 c" by (rule consommer_n1_shrinks)
  finally show ?case by simp
qed

text \<open>
  C3. A token \<open>t\<close> of \<open>valid_n1\<close> is consumed with answer true and removed from the set,
  \<open>hashed_n2\<close> staying as it was; after that, whatever other tokens are consumed in
  between, a call with the same \<open>t\<close> answers false and returns the registry it was given
  (both \<open>valid_n1\<close> and \<open>hashed_n2\<close>); and a token that is not in \<open>valid_n1\<close> is answered
  false with the registry unchanged.
\<close>

theorem consommer_n1_one_time:
  "(t \<in> valid_n1 c \<longrightarrow>
      fst (consommer_n1 t c) = True
      \<and> valid_n1 (snd (consommer_n1 t c)) = valid_n1 c - {t}
      \<and> hashed_n2 (snd (consommer_n1 t c)) = hashed_n2 c
      \<and> consommer_n1 t (snd (consommer_n1 t c)) = (False, snd (consommer_n1 t c))
      \<and> (\<forall>ts. consommer_n1 t (consommer_tous ts (snd (consommer_n1 t c)))
                = (False, consommer_tous ts (snd (consommer_n1 t c)))))
   \<and> (t \<notin> valid_n1 c \<longrightarrow> consommer_n1 t c = (False, c))"
proof (intro conjI impI allI)
  assume "t \<notin> valid_n1 c"
  then show "consommer_n1 t c = (False, c)" by (rule consommer_n1_absent)
next
  assume t: "t \<in> valid_n1 c"
  then show "fst (consommer_n1 t c) = True" by (simp add: consommer_n1_def)
  from t show "valid_n1 (snd (consommer_n1 t c)) = valid_n1 c - {t}"
    by (simp add: consommer_n1_def)
  from t show "hashed_n2 (snd (consommer_n1 t c)) = hashed_n2 c"
    by (simp add: consommer_n1_def)
  from t have gone: "t \<notin> valid_n1 (snd (consommer_n1 t c))"
    by (simp add: consommer_n1_def)
  then show "consommer_n1 t (snd (consommer_n1 t c)) = (False, snd (consommer_n1 t c))"
    by (rule consommer_n1_absent)
  fix ts
  from gone consommer_tous_shrinks [of ts "snd (consommer_n1 t c)"]
  have "t \<notin> valid_n1 (consommer_tous ts (snd (consommer_n1 t c)))" by blast
  then show "consommer_n1 t (consommer_tous ts (snd (consommer_n1 t c)))
               = (False, consommer_tous ts (snd (consommer_n1 t c)))"
    by (rule consommer_n1_absent)
qed

theorem consommer_n1_one_time_witness:
  "ascii ''A1'' \<in> valid_n1 \<lparr>valid_n1 = {ascii ''A1'', ascii ''B2''}, hashed_n2 = {}\<rparr>
   \<and> consommer_n1 (ascii ''A1'') \<lparr>valid_n1 = {ascii ''A1'', ascii ''B2''}, hashed_n2 = {}\<rparr>
       = (True, \<lparr>valid_n1 = {ascii ''B2''}, hashed_n2 = {}\<rparr>)
   \<and> consommer_n1 (ascii ''A1'') \<lparr>valid_n1 = {ascii ''B2''}, hashed_n2 = {}\<rparr>
       = (False, \<lparr>valid_n1 = {ascii ''B2''}, hashed_n2 = {}\<rparr>)
   \<and> ascii ''C3'' \<notin> valid_n1 \<lparr>valid_n1 = {ascii ''A1'', ascii ''B2''}, hashed_n2 = {}\<rparr>
   \<and> consommer_n1 (ascii ''C3'') \<lparr>valid_n1 = {ascii ''A1'', ascii ''B2''}, hashed_n2 = {}\<rparr>
       = (False, \<lparr>valid_n1 = {ascii ''A1'', ascii ''B2''}, hashed_n2 = {}\<rparr>)"
  using consommer_n1_one_time [of "ascii ''A1''" "\<lparr>valid_n1 = {ascii ''A1'', ascii ''B2''}, hashed_n2 = {}\<rparr>"]
        consommer_n1_one_time [of "ascii ''C3''" "\<lparr>valid_n1 = {ascii ''A1'', ascii ''B2''}, hashed_n2 = {}\<rparr>"]
  by (simp add: consommer_n1_def ascii_def insert_Diff_if)

section \<open>Arithmetic of the RSA primitives\<close>

lemma premier_coprime:
  assumes "premier p" and "\<not> p dvd a"
  shows "coprime p a"
proof -
  let ?g = "gcd p a"
  have g0: "0 \<le> ?g" by simp
  have gp: "?g dvd p" by simp
  from assms(1) have p1: "1 < p" by (simp add: premier_def)
  then have "?g \<noteq> 0" by auto
  have "?g \<le> p" using gp p1 by (simp add: zdvd_imp_le)
  have "?g \<noteq> p" using assms(2) by (metis gcd_dvd2)
  have "?g \<notin> {2..<p}" using assms(1) gp by (auto simp: premier_def)
  with \<open>?g \<le> p\<close> \<open>?g \<noteq> p\<close> \<open>?g \<noteq> 0\<close> g0 have "?g = 1"
    by (simp only: atLeastLessThan_iff) arith
  then show ?thesis by (simp add: coprime_iff_gcd_eq_1)
qed

lemma premier_dvd_choose:
  assumes "premier (int p)" and "0 < k" and "k < p"
  shows "int p dvd int (p choose k)"
proof -
  have "\<not> p dvd k" using assms(2,3) by (simp add: nat_dvd_not_less)
  then have "\<not> int p dvd int k" by (simp only: int_dvd_int_iff not_False_eq_True)
  with assms(1) have cop: "coprime (int p) (int k)" by (rule premier_coprime)
  have "k * (p choose k) = p * ((p - 1) choose (k - 1))"
    using assms(2) by (rule times_binomial_minus1_eq)
  then have "int k * int (p choose k) = int p * int ((p - 1) choose (k - 1))"
    by (metis of_nat_mult)
  then have "int p dvd int k * int (p choose k)" by simp
  with cop show ?thesis by (simp add: coprime_dvd_mult_right_iff)
qed

lemma fermat_step:
  assumes "premier (int p)"
  shows "int p dvd (a + 1) ^ p - a ^ p - 1"
proof -
  from assms have p2: "2 \<le> p" by (simp add: premier_def)
  let ?f = "\<lambda>k. int (p choose k) * a ^ k"
  have "(a + 1) ^ p = (\<Sum>k\<le>p. ?f k)"
    using binomial_ring [of a 1 p] by simp
  also have "{..p} = insert 0 (insert p {1..<p})" using p2 by auto
  also have "(\<Sum>k\<in>insert 0 (insert p {1..<p}). ?f k) = ?f 0 + (?f p + (\<Sum>k\<in>{1..<p}. ?f k))"
    using p2 by simp
  finally have "(a + 1) ^ p - a ^ p - 1 = (\<Sum>k\<in>{1..<p}. ?f k)" by simp
  moreover have "int p dvd (\<Sum>k\<in>{1..<p}. ?f k)"
  proof (rule dvd_sum)
    fix k assume "k \<in> {1..<p}"
    then have "int p dvd int (p choose k)" using assms by (intro premier_dvd_choose) auto
    then show "int p dvd ?f k" by simp
  qed
  ultimately show ?thesis by simp
qed

lemma fermat_nat:
  assumes "premier (int p)"
  shows "int p dvd (int a) ^ p - int a"
proof (induction a)
  case 0
  from assms have "0 < p" by (simp add: premier_def)
  then show ?case by (simp add: zero_power)
next
  case (Suc a)
  have "(int (Suc a)) ^ p - int (Suc a) = ((int a + 1) ^ p - (int a) ^ p - 1) + ((int a) ^ p - int a)"
    by (simp add: algebra_simps)
  then show ?case using fermat_step [OF assms, of "int a"] Suc.IH by (metis dvd_add) 
qed

lemma fermat_little:
  assumes "premier p" and "0 \<le> a" and "\<not> p dvd a"
  shows "p dvd a ^ (nat p - 1) - 1"
proof -
  from assms(1) have p1: "1 < p" by (simp add: premier_def)
  have "int (nat p) dvd (int (nat a)) ^ (nat p) - int (nat a)"
    using assms(1) p1 by (intro fermat_nat) simp
  then have "p dvd a ^ nat p - a" using p1 assms(2) by simp
  moreover have "a ^ nat p - a = a * (a ^ (nat p - 1) - 1)"
    using p1 by (cases "nat p") (simp_all add: algebra_simps)
  ultimately have "p dvd a * (a ^ (nat p - 1) - 1)" by simp
  moreover have "coprime p a" using assms(1,3) by (rule premier_coprime)
  ultimately show ?thesis by (simp add: coprime_dvd_mult_right_iff)
qed

lemma modpow_loop_eq: "modpow_loop z a b c mod c = z * a ^ nat b mod c"
proof (induction z a b c rule: modpow_loop.induct)
  case (1 z a b c)
  show ?case
  proof (cases "b \<le> 0")
    case True
    then show ?thesis by (subst modpow_loop.simps) simp
  next
    case False
    let ?z = "if b mod 2 = 1 then z * a mod c else z"
    let ?h = "nat (b div 2)"
    have "modpow_loop z a b c mod c = modpow_loop ?z (a * a mod c) (b div 2) c mod c"
      using False by (subst modpow_loop.simps) simp
    also have "\<dots> = ?z * (a * a mod c) ^ ?h mod c"
      using False by (rule "1.IH")
    also have "\<dots> = ?z * (a * a) ^ ?h mod c"
      by (metis mod_mult_right_eq power_mod)
    also have "\<dots> = ?z * a ^ (2 * ?h) mod c"
      by (simp add: power_mult power2_eq_square)
    also have "\<dots> = z * a ^ nat b mod c"
    proof (cases "b mod 2 = 1")
      case True
      with False have "b = 2 * (b div 2) + 1" and "0 \<le> b div 2" by presburger+
      then have b: "nat b = Suc (2 * ?h)" by linarith
      have "(z * a mod c) * a ^ (2 * ?h) mod c = z * a * a ^ (2 * ?h) mod c"
        by (simp add: mod_mult_left_eq)
      also have "\<dots> = z * a ^ Suc (2 * ?h) mod c" by (simp add: mult.assoc)
      finally show ?thesis using True by (simp add: b del: power_Suc)
    next
      case odd: False
      with False have "b = 2 * (b div 2)" and "0 \<le> b div 2" by presburger+
      then have b: "nat b = 2 * ?h" by linarith
      show ?thesis using odd by (simp add: b)
    qed
    finally show ?thesis .
  qed
qed

lemma modpow_loop_reduced: "z mod c = z \<Longrightarrow> modpow_loop z a b c mod c = modpow_loop z a b c"
proof (induction z a b c rule: modpow_loop.induct)
  case (1 z a b c)
  show ?case
  proof (cases "b \<le> 0")
    case True
    then show ?thesis using "1.prems" by (subst (1 2) modpow_loop.simps) simp
  next
    case False
    let ?z = "if b mod 2 = 1 then z * a mod c else z"
    have step: "modpow_loop z a b c = modpow_loop ?z (a * a mod c) (b div 2) c"
      using False by (subst modpow_loop.simps) simp
    have "?z mod c = ?z" using "1.prems" by simp
    with False have "modpow_loop ?z (a * a mod c) (b div 2) c mod c
                   = modpow_loop ?z (a * a mod c) (b div 2) c" by (rule "1.IH")
    then show ?thesis by (simp only: step)
  qed
qed

lemma modpow_eq: "modpow a b c = a ^ nat b mod c"
proof -
  have "modpow a b c = modpow a b c mod c"
    unfolding modpow_def by (rule modpow_loop_reduced [symmetric]) simp
  also have "\<dots> = (1 mod c) * (a mod c) ^ nat b mod c"
    unfolding modpow_def by (rule modpow_loop_eq)
  also have "\<dots> = a ^ nat b mod c"
    by (metis mod_mult_left_eq mult_1 power_mod)
  finally show ?thesis .
qed

lemma pow_mod_nonneg: "1 < c \<Longrightarrow> 0 \<le> b \<Longrightarrow> pow_mod a b c = Inr (a ^ nat b mod c)"
  by (simp add: pow_mod_def modpow_eq)

lemma invmod_SomeD:
  assumes "invmod a m = Some d"
  shows "0 \<le> d \<and> d < m \<and> a * d mod m = 1"
  using assms unfolding invmod_def by (auto simp: find_Some_iff)

lemma invmod_exists:
  assumes "1 < m" and "coprime a m"
  shows "\<exists>d. invmod a m = Some d"
proof -
  obtain u v where "u * a + v * m = gcd a m" using bezout_int by blast
  with assms(2) have uv: "a * u + m * v = 1" by (simp add: mult.commute)
  have "a * (u mod m) mod m = a * u mod m" by (simp add: mod_mult_right_eq)
  also have "\<dots> = (a * u + m * v) mod m" by simp
  also have "\<dots> = 1" using uv assms(1) by simp
  finally have "a * (u mod m) mod m = 1" .
  moreover have "u mod m \<in> set [0..m - 1]" using assms(1) by simp
  ultimately have "find (\<lambda>x. a * x mod m = 1) [0..m - 1] \<noteq> None"
    by (auto simp: find_None_iff)
  then show ?thesis by (auto simp: invmod_def)
qed

lemma gcd_loop_eq: "0 \<le> b \<Longrightarrow> (b = 0 \<longrightarrow> 0 \<le> a) \<Longrightarrow> gcd_loop a b = gcd a b"
proof (induction a b rule: gcd_loop.induct)
  case (1 a b)
  show ?case
  proof (cases "b = 0")
    case True
    with "1.prems" show ?thesis by (subst gcd_loop.simps) simp
  next
    case False
    with "1.prems" have b: "0 < b" by simp
    then have "0 \<le> a mod b" by simp
    then have "gcd_loop b (a mod b) = gcd b (a mod b)"
      using False b by (intro "1.IH") simp_all
    also have "\<dots> = gcd a b" by (metis gcd.commute gcd_red_int)
    finally show ?thesis using False by (subst gcd_loop.simps) simp
  qed
qed

lemma rsa_mod_prime:
  assumes p: "premier p" and x: "0 \<le> x"
  shows "p dvd x ^ (1 + k * (nat p - 1)) - x"
proof (cases "p dvd x")
  case True
  then show ?thesis by simp
next
  case False
  with p x have "p dvd x ^ (nat p - 1) - 1" by (intro fermat_little)
  then have one: "x ^ (nat p - 1) mod p = 1 mod p"
    by (metis mod_eq_dvd_iff)
  have "(x ^ (nat p - 1)) ^ k mod p = 1 mod p"
    by (metis one power_mod power_one)
  then have "x ^ (k * (nat p - 1)) mod p = 1 mod p"
    by (simp only: power_mult mult.commute [of k])
  then have "x * x ^ (k * (nat p - 1)) mod p = x * 1 mod p"
    by (metis mod_mult_right_eq)
  then show ?thesis by (simp add: mod_eq_dvd_iff)
qed

lemma premier_distinct_coprime:
  assumes "premier p" and "premier q" and "p \<noteq> q"
  shows "coprime p q"
proof (rule premier_coprime [OF assms(1)])
  show "\<not> p dvd q"
  proof
    assume "p dvd q"
    moreover from assms(1,2) have "1 < p" "1 < q" by (simp_all add: premier_def)
    moreover from this \<open>p dvd q\<close> have "p \<le> q" by (simp add: zdvd_imp_le)
    ultimately have "p \<in> {2..<q}" using assms(3) by simp
    with assms(2) \<open>p dvd q\<close> show False by (auto simp: premier_def)
  qed
qed

lemma rsa_core:
  assumes p: "premier p" and q: "premier q" and pq: "p \<noteq> q"
    and e: "0 \<le> e" and d: "0 \<le> d" and ed: "e * d mod ((p - 1) * (q - 1)) = 1"
    and x: "0 \<le> x"
  shows "x ^ (nat e * nat d) mod (p * q) = x mod (p * q)"
proof -
  from p q have p1: "1 < p" and q1: "1 < q" by (simp_all add: premier_def)
  let ?phi = "(p - 1) * (q - 1)"
  let ?k = "e * d div ?phi"
  have phi0: "0 < ?phi" using p1 q1 by simp
  have k0: "0 \<le> ?k" using e d phi0 by (simp add: pos_imp_zdiv_nonneg_iff)
  have eq: "e * d = ?phi * ?k + 1" using ed by (metis mult_div_mod_eq)
  have "nat e * nat d = nat (e * d)" using e by (simp add: nat_mult_distrib)
  also have "\<dots> = nat (?phi * ?k + 1)" by (rule arg_cong [OF eq])
  also have "\<dots> = nat (?phi * ?k) + nat 1"
    by (rule nat_add_distrib) (use phi0 k0 in simp_all)
  also have "nat (?phi * ?k) = nat ?phi * nat ?k"
    by (rule nat_mult_distrib) (use phi0 in simp)
  also have "nat ?phi = nat (p - 1) * nat (q - 1)"
    by (rule nat_mult_distrib) (use p1 in simp)
  finally have ned: "nat e * nat d = 1 + nat ?k * (nat (p - 1) * nat (q - 1))"
    by (simp add: mult.commute)
  define K where "K = nat ?k"
  define P where "P = nat p - 1"
  define Q where "Q = nat q - 1"
  have "nat (p - 1) = P" and "nat (q - 1) = Q" by (simp_all add: P_def Q_def)
  with ned have N: "nat e * nat d = 1 + K * (P * Q)" by (simp only: K_def)
  have Np: "nat e * nat d = 1 + (K * Q) * P" unfolding N by (simp add: ac_simps)
  have Nq: "nat e * nat d = 1 + (K * P) * Q" unfolding N by (simp add: ac_simps)
  have dp: "p dvd x ^ (nat e * nat d) - x"
    unfolding Np P_def using p x by (rule rsa_mod_prime)
  have dq: "q dvd x ^ (nat e * nat d) - x"
    unfolding Nq Q_def using q x by (rule rsa_mod_prime)
  have "coprime p q" using p q pq by (rule premier_distinct_coprime)
  with dp dq have "p * q dvd x ^ (nat e * nat d) - x" by (simp add: divides_mult)
  then show ?thesis by (simp add: mod_eq_dvd_iff)
qed

section \<open>Key generation\<close>

lemma modinv_InrD:
  assumes "1 < m" and "modinv a m = Inr d"
  shows "0 \<le> d \<and> d < m \<and> a * d mod m = 1"
proof -
  from assms obtain a' where inv: "invmod a m = Some a'" and d: "d = modpow a' 1 m"
    by (auto simp: modinv_def pow_mod_def split: option.splits)
  from inv have a': "0 \<le> a' \<and> a' < m \<and> a * a' mod m = 1" by (rule invmod_SomeD)
  then have "d = a'" using d by (simp add: modpow_eq)
  with a' show ?thesis by simp
qed

lemma modinv_exists:
  assumes "1 < m" and "coprime a m"
  shows "\<exists>d. modinv a m = Inr d"
proof -
  from assms obtain d where "invmod a m = Some d" using invmod_exists by blast
  then show ?thesis using assms(1) by (simp add: modinv_def pow_mod_def)
qed

lemma randrange_cases:
  assumes "start < stop"
  shows "randrange start stop t = None
       \<or> (\<exists>v t'. randrange start stop t = Some (Inr (v, t')) \<and> start \<le> v \<and> v < stop)"
proof (cases t)
  case Nil
  then show ?thesis using assms by (simp add: randrange.simps)
next
  case (Cons r rest)
  define v where "v = (r - start) mod (stop - start)"
  from assms have "0 \<le> v" and "v < stop - start" by (simp_all add: v_def)
  then have "start \<le> start + v" and "start + v < stop" by linarith+
  moreover have "randrange start stop t = Some (Inr (start + v, rest))"
    using assms Cons by (simp add: randrange.simps v_def)
  ultimately show ?thesis by blast
qed

lemma choose_e_cases:
  "1 < phi \<Longrightarrow> g = gcd_loop e0 phi \<Longrightarrow>
   choose_e e0 g phi t = None
   \<or> (\<exists>e t'. choose_e e0 g phi t = Some (Inr (e, t'))
         \<and> gcd_loop e phi = 1 \<and> (e = e0 \<or> (1 \<le> e \<and> e < phi)))"
proof (induction e0 g phi t rule: choose_e.induct)
  case (1 e0 g phi t)
  show ?case
  proof (cases "g = 1")
    case True
    then show ?thesis using "1.prems" by (subst (1 2) choose_e.simps) simp
  next
    case False
    from "1.prems"(1) randrange_cases [of 1 phi t]
    consider "randrange 1 phi t = None"
      | e' t' where "randrange 1 phi t = Some (Inr (e', t'))" "1 \<le> e'" "e' < phi"
      by auto
    then show ?thesis
    proof cases
      case 1
      then show ?thesis using False by (subst choose_e.simps) simp
    next
      case (2 e' t')
      have step: "choose_e e0 g phi t = choose_e e' (gcd_loop e' phi) phi t'"
        using False 2(1) by (subst choose_e.simps) simp
      have "choose_e e' (gcd_loop e' phi) phi t' = None
         \<or> (\<exists>e t''. choose_e e' (gcd_loop e' phi) phi t' = Some (Inr (e, t''))
               \<and> gcd_loop e phi = 1 \<and> (e = e' \<or> (1 \<le> e \<and> e < phi)))"
        using False 2(1) "1.prems"(1) by (intro "1.IH") simp_all
      then show ?thesis unfolding step using 2(2,3) by auto
    qed
  qed
qed

lemma generate_large_prime_odd:
  "generate_large_prime bits t = Some (Inr (p, t')) \<Longrightarrow> 3 \<le> p \<and> p mod 2 = 1"
proof (induction bits t rule: generate_large_prime.induct)
  case (1 bits t)
  from "1.prems" obtain num0 t1 where draw: "randbits bits t = Some (Inr (num0, t1))"
    by (subst (asm) generate_large_prime.simps) (auto split: option.splits sum.splits)
  define num where "num = (if num0 mod 2 = 0 then num0 + 1 else num0)"
  have odd: "num mod 2 = 1" unfolding num_def by presburger
  from "1.prems" draw obtain b t2 where test: "is_prime num 5 t1 = Some (Inr (b, t2))"
    by (subst (asm) generate_large_prime.simps)
       (auto simp: num_def Let_def split: option.splits sum.splits)
  show ?case
  proof (cases b)
    case True
    with "1.prems" draw test have "p = num"
      by (subst (asm) generate_large_prime.simps) (simp add: num_def Let_def)
    moreover from True test have "2 \<le> num"
      by (auto simp: is_prime_def split: if_splits)
    ultimately show ?thesis using odd by presburger
  next
    case False
    with "1.prems" draw test have "generate_large_prime bits t2 = Some (Inr (p, t'))"
      by (subst (asm) generate_large_prime.simps) (simp add: num_def Let_def)
    with draw test False show ?thesis
      by (intro "1.IH" [of "Inr (num0, t1)" "(num0, t1)" num0 t1 num "Inr (b, t2)" "(b, t2)" b t2])
         (simp_all add: num_def)
  qed
qed

lemma gcd_loop_pos: "0 < b \<Longrightarrow> gcd_loop a b = gcd a b"
  by (rule gcd_loop_eq) simp_all

lemma generate_keypair_drawn:
  assumes "generate_large_prime (bits div 2) t = Some (Inr (p, t1))"
    and "generate_large_prime (bits div 2) t1 = Some (Inr (q, t2))"
  shows "generate_keypair bits t =
     (case choose_e 65537 (gcd_loop 65537 ((p - 1) * (q - 1))) ((p - 1) * (q - 1)) t2 of
        None \<Rightarrow> None
      | Some (Inl err) \<Rightarrow> Some (Inl err)
      | Some (Inr (e, t3)) \<Rightarrow>
          (case modinv e ((p - 1) * (q - 1)) of
             Inl err \<Rightarrow> Some (Inl err)
           | Inr d \<Rightarrow> Some (Inr (((e, p * q), (d, p * q)), t3))))"
  using assms by (simp add: generate_keypair_def Let_def)

lemma generate_keypair_cases:
  assumes gp: "generate_large_prime (bits div 2) t = Some (Inr (p, t1))"
    and gq: "generate_large_prime (bits div 2) t1 = Some (Inr (q, t2))"
    and phi: "1 < (p - 1) * (q - 1)"
  shows "generate_keypair bits t = None
       \<or> (\<exists>e d t3. generate_keypair bits t = Some (Inr (((e, p * q), (d, p * q)), t3))
             \<and> 0 < e \<and> 0 \<le> d \<and> e * d mod ((p - 1) * (q - 1)) = 1)"
proof -
  let ?phi = "(p - 1) * (q - 1)"
  note kp = generate_keypair_drawn [OF gp gq]
  show ?thesis
  proof (cases "choose_e 65537 (gcd_loop 65537 ?phi) ?phi t2 = None")
    case True
    then show ?thesis by (simp add: kp)
  next
    case False
    with choose_e_cases [OF phi refl, of 65537 t2]
    obtain e t3 where ch: "choose_e 65537 (gcd_loop 65537 ?phi) ?phi t2 = Some (Inr (e, t3))"
      and g: "gcd_loop e ?phi = 1" and range: "e = 65537 \<or> (1 \<le> e \<and> e < ?phi)"
      by auto
    from range have e: "0 < e" by auto
    from phi have "gcd_loop e ?phi = gcd e ?phi" by (intro gcd_loop_pos) simp
    with g have "coprime e ?phi" by (simp add: coprime_iff_gcd_eq_1)
    with phi obtain d where d: "modinv e ?phi = Inr d" using modinv_exists by blast
    have "0 \<le> d \<and> d < ?phi \<and> e * d mod ?phi = 1" using phi d by (rule modinv_InrD)
    moreover have "generate_keypair bits t = Some (Inr (((e, p * q), (d, p * q)), t3))"
      by (simp add: kp ch d)
    ultimately show ?thesis using e by blast
  qed
qed

lemma generate_keypair_e_default:
  assumes gp: "generate_large_prime (bits div 2) t = Some (Inr (p, t1))"
    and gq: "generate_large_prime (bits div 2) t1 = Some (Inr (q, t2))"
    and phi: "1 < (p - 1) * (q - 1)"
    and g: "gcd_loop 65537 ((p - 1) * (q - 1)) = 1"
  shows "\<exists>d. generate_keypair bits t = Some (Inr (((65537, p * q), (d, p * q)), t2))"
proof -
  let ?phi = "(p - 1) * (q - 1)"
  have ch: "choose_e 65537 (gcd_loop 65537 ?phi) ?phi t2 = Some (Inr (65537, t2))"
    using g by (subst choose_e.simps) simp
  from phi have "gcd_loop 65537 ?phi = gcd 65537 ?phi" by (intro gcd_loop_pos) simp
  with g have "coprime 65537 ?phi" by (simp add: coprime_iff_gcd_eq_1)
  with phi obtain d where d: "modinv 65537 ?phi = Inr d" using modinv_exists by blast
  show ?thesis by (simp add: generate_keypair_drawn [OF gp gq] ch d)
qed

text \<open>
  C7, as stated, fails: with both draws of \<open>secrets.randbits(512)\<close> giving 3, the two
  primes are equal and \<open>generate_keypair(1024)\<close> returns a key pair of modulus \<open>3 * 3\<close>;
  no error is raised.
\<close>

theorem generate_keypair_equal_primes_counterexample:
  "generate_large_prime (1024 div 2) [3, 3] = Some (Inr (3, [3]))
   \<and> generate_large_prime (1024 div 2) [3] = Some (Inr (3, []))
   \<and> generate_keypair 1024 [3, 3] = Some (Inr (((65537, 3 * 3), (1, 3 * 3)), []))"
  by code_simp

text \<open>
  C7, amended. When the two primes drawn during \<open>generate_keypair\<close> are equal, key
  generation raises no error: every key pair it returns has the modulus \<open>p * p\<close> in both
  halves, and when 65537 is coprime to \<open>(p - 1) * (p - 1)\<close> it does return, with the
  public exponent 65537.
\<close>

theorem generate_keypair_equal_primes:
  assumes gp: "generate_large_prime (bits div 2) t = Some (Inr (p, t1))"
    and gq: "generate_large_prime (bits div 2) t1 = Some (Inr (p, t2))"
  shows "(\<forall>err. generate_keypair bits t \<noteq> Some (Inl err))
       \<and> (\<forall>pub priv t3. generate_keypair bits t = Some (Inr ((pub, priv), t3))
             \<longrightarrow> snd pub = p * p \<and> snd priv = p * p)
       \<and> (gcd_loop 65537 ((p - 1) * (p - 1)) = 1
             \<longrightarrow> (\<exists>d. generate_keypair bits t
                        = Some (Inr (((65537, p * p), (d, p * p)), t2))))"
proof -
  from gp have "3 \<le> p" by (auto dest: generate_large_prime_odd)
  then have "2 * 2 \<le> (p - 1) * (p - 1)" by (intro mult_mono) simp_all
  then have phi: "1 < (p - 1) * (p - 1)" by simp
  from generate_keypair_cases [OF gp gq phi]
  have a: "\<forall>err. generate_keypair bits t \<noteq> Some (Inl err)"
    and b: "\<forall>pub priv t3. generate_keypair bits t = Some (Inr ((pub, priv), t3))
             \<longrightarrow> snd pub = p * p \<and> snd priv = p * p"
    by auto
  have c: "gcd_loop 65537 ((p - 1) * (p - 1)) = 1
             \<longrightarrow> (\<exists>d. generate_keypair bits t
                        = Some (Inr (((65537, p * p), (d, p * p)), t2)))"
    using generate_keypair_e_default [OF gp gq phi] by blast
  from a b c show ?thesis by blast
qed

theorem generate_keypair_equal_primes_witness:
  "generate_large_prime (1024 div 2) [5, 2, 2, 2, 2, 2, 5, 2, 2, 2, 2, 2] = Some (Inr (5, [5, 2, 2, 2, 2, 2]))
   \<and> generate_large_prime (1024 div 2) [5, 2, 2, 2, 2, 2] = Some (Inr (5, []))
   \<and> gcd_loop 65537 ((5 - 1) * (5 - 1)) = 1
   \<and> snd (fst (fst (projr (the (generate_keypair 1024 [5, 2, 2, 2, 2, 2, 5, 2, 2, 2, 2, 2]))))) = 5 * 5
   \<and> (\<exists>d. generate_keypair 1024 [5, 2, 2, 2, 2, 2, 5, 2, 2, 2, 2, 2]
             = Some (Inr (((65537, 5 * 5), (d, 5 * 5)), [])))"
proof -
  have gp: "generate_large_prime (1024 div 2) [5, 2, 2, 2, 2, 2, 5, 2, 2, 2, 2, 2] = Some (Inr (5, [5, 2, 2, 2, 2, 2]))"
    by code_simp
  have gq: "generate_large_prime (1024 div 2) [5, 2, 2, 2, 2, 2] = Some (Inr (5, []))"
    by code_simp
  have g: "gcd_loop 65537 ((5 - 1) * (5 - 1)) = 1" by code_simp
  from generate_keypair_equal_primes [OF gp gq] g
  obtain d where kp: "generate_keypair 1024 [5, 2, 2, 2, 2, 2, 5, 2, 2, 2, 2, 2]
             = Some (Inr (((65537, 5 * 5), (d, 5 * 5)), []))" by blast
  show ?thesis using gp gq g kp by simp
qed

text \<open>
  C6 on the code: asked for 8 bits, with \<open>secrets.randbits(8)\<close> giving 3,
  \<open>generate_large_prime\<close> returns 3, which passes \<open>is_prime\<close> and whose bit length is 2,
  not 8.
\<close>

theorem generate_large_prime_short:
  "generate_large_prime 8 [3] = Some (Inr (3, [])) \<and> bit_length 3 = 2
   \<and> is_prime 3 5 [] = Some (Inr (True, []))"
  by code_simp

lemma premier_ge2: "premier p \<Longrightarrow> 2 \<le> p"
  by (simp add: premier_def)

lemma distinct_premiers_phi:
  assumes "premier p" and "premier q" and "p \<noteq> q"
  shows "1 < (p - 1) * (q - 1)" and "1 < p * q"
proof -
  from assms have p: "2 \<le> p" and q: "2 \<le> q" by (auto dest: premier_ge2)
  with assms(3) have "3 \<le> p \<or> 3 \<le> q" by arith
  then show "1 < (p - 1) * (q - 1)"
  proof
    assume "3 \<le> p"
    then have "2 * 1 \<le> (p - 1) * (q - 1)" using q by (intro mult_mono) simp_all
    then show ?thesis by simp
  next
    assume "3 \<le> q"
    then have "1 * 2 \<le> (p - 1) * (q - 1)" using p by (intro mult_mono) simp_all
    then show ?thesis by simp
  qed
  from p q have "2 * 2 \<le> p * q" by (intro mult_mono) simp_all
  then show "1 < p * q" by simp
qed

lemma pow_pow_mod:
  assumes "1 < n" and "0 \<le> a" and "0 \<le> b"
  shows "\<exists>c. pow_mod x a n = Inr c \<and> pow_mod c b n = Inr (x ^ (nat a * nat b) mod n)"
  using assms by (simp add: pow_mod_nonneg power_mod power_mult)

lemma rsa_keys_round_trip:
  assumes p: "premier p" and q: "premier q" and pq: "p \<noteq> q"
    and e: "0 \<le> e" and d: "0 \<le> d" and ed: "e * d mod ((p - 1) * (q - 1)) = 1"
    and x: "0 \<le> x" "x < p * q"
  shows "\<exists>c. pow_mod x e (p * q) = Inr c \<and> pow_mod c d (p * q) = Inr x"
    and "\<exists>s. pow_mod x d (p * q) = Inr s \<and> pow_mod s e (p * q) = Inr x"
proof -
  have n: "1 < p * q" using p q pq by (rule distinct_premiers_phi)
  have core: "x ^ (nat e * nat d) mod (p * q) = x"
    using rsa_core [OF p q pq e d ed x(1)] x by simp
  from pow_pow_mod [OF n e d, of x] core
  show "\<exists>c. pow_mod x e (p * q) = Inr c \<and> pow_mod c d (p * q) = Inr x" by simp
  from pow_pow_mod [OF n d e, of x] core
  show "\<exists>s. pow_mod x d (p * q) = Inr s \<and> pow_mod s e (p * q) = Inr x"
    by (simp add: mult.commute)
qed

text \<open>
  C2, as stated, fails: \<open>generate_keypair(1024)\<close> can return \<open>((65537, 9), (1, 9))\<close>, and
  for \<open>x = 3\<close>, which is below 9, neither decrypting the encryption nor verifying the
  signature gives 3 back.
\<close>

theorem rsa_round_trip_counterexample:
  "generate_keypair 1024 [3, 3] = Some (Inr (((65537, 9), (1, 9)), []))
   \<and> (0::int) \<le> 3 \<and> (3::int) < 9
   \<and> \<not> (\<exists>c. pow_mod 3 65537 9 = Inr c \<and> pow_mod c 1 9 = Inr 3)
   \<and> \<not> (\<exists>s. pow_mod 3 1 9 = Inr s \<and> pow_mod s 65537 9 = Inr 3)"
proof -
  have "generate_keypair 1024 [3, 3] = Some (Inr (((65537, 9), (1, 9)), []))" by code_simp
  moreover have "pow_mod 3 65537 9 = Inr 0" by code_simp
  moreover have "pow_mod 0 1 9 = Inr 0" by code_simp
  moreover have "pow_mod 3 1 9 = Inr 3" by code_simp
  ultimately show ?thesis by simp
qed

text \<open>
  C2, amended. For every key pair \<open>((e, n), (d, n))\<close> that \<open>generate_keypair\<close> returns
  after drawing two distinct numbers \<open>p\<close> and \<open>q\<close> that are prime, and every \<open>x\<close> with
  \<open>0 \<le> x < n\<close>: decrypting the encryption of \<open>x\<close> gives \<open>x\<close>, and verifying the
  signature of \<open>x\<close> gives \<open>x\<close>.
\<close>

theorem rsa_round_trip:
  assumes gp: "generate_large_prime (bits div 2) t = Some (Inr (p, t1))"
    and gq: "generate_large_prime (bits div 2) t1 = Some (Inr (q, t2))"
    and p: "premier p" and q: "premier q" and pq: "p \<noteq> q"
    and kp: "generate_keypair bits t = Some (Inr (((e, n), (d, n')), t3))"
    and x: "0 \<le> x" "x < n"
  shows "(\<exists>c. pow_mod x e n = Inr c \<and> pow_mod c d n' = Inr x)
       \<and> (\<exists>s. pow_mod x d n' = Inr s \<and> pow_mod s e n = Inr x)"
proof -
  have phi: "1 < (p - 1) * (q - 1)" using p q pq by (rule distinct_premiers_phi)
  from generate_keypair_cases [OF gp gq phi] kp
  have n: "n = p * q" "n' = p * q" and e: "0 \<le> e" and d: "0 \<le> d"
    and ed: "e * d mod ((p - 1) * (q - 1)) = 1" by auto
  from x have x': "x < p * q" by (simp add: n)
  show ?thesis unfolding n
    using rsa_keys_round_trip [OF p q pq e d ed x(1) x'] by blast
qed

theorem rsa_round_trip_witness:
  "generate_large_prime (8 div 2) [7, 2, 2, 2, 2, 2, 11, 2, 2, 2, 2, 2] = Some (Inr (7, [11, 2, 2, 2, 2, 2]))
   \<and> generate_large_prime (8 div 2) [11, 2, 2, 2, 2, 2] = Some (Inr (11, []))
   \<and> premier 7 \<and> premier 11 \<and> (7::int) \<noteq> 11
   \<and> generate_keypair 8 [7, 2, 2, 2, 2, 2, 11, 2, 2, 2, 2, 2] = Some (Inr (((65537, 77), (53, 77)), []))
   \<and> (0::int) \<le> 10 \<and> (10::int) < 77
   \<and> pow_mod 10 65537 77 = Inr 54 \<and> pow_mod 54 53 77 = Inr 10
   \<and> pow_mod 10 53 77 = Inr 54 \<and> pow_mod 54 65537 77 = Inr 10"
proof -
  have gp: "generate_large_prime (8 div 2) [7, 2, 2, 2, 2, 2, 11, 2, 2, 2, 2, 2] = Some (Inr (7, [11, 2, 2, 2, 2, 2]))"
    by code_simp
  have gq: "generate_large_prime (8 div 2) [11, 2, 2, 2, 2, 2] = Some (Inr (11, []))"
    by code_simp
  have p: "premier 7" and q: "premier 11" by code_simp+
  have kp: "generate_keypair 8 [7, 2, 2, 2, 2, 2, 11, 2, 2, 2, 2, 2] = Some (Inr (((65537, 77), (53, 77)), []))"
    by code_simp
  have c: "pow_mod 10 65537 77 = Inr 54" and s: "pow_mod 10 53 77 = Inr 54" by code_simp+
  from rsa_round_trip [OF gp gq p q _ kp, of 10] c s
  have "pow_mod 54 53 77 = Inr 10 \<and> pow_mod 54 65537 77 = Inr 10" by simp
  with gp gq p q kp c s show ?thesis by simp
qed

section \<open>Blind signature\<close>

lemma blind_core:
  fixes n :: int
  assumes rsa: "\<And>x. 0 \<le> x \<Longrightarrow> x ^ (E * D) mod n = x mod n"
    and inv: "k * kinv mod n = 1" and n: "1 < n" and m: "0 \<le> m" "m < n"
  shows "((((m * (k ^ E mod n)) mod n) ^ D mod n * kinv) mod n) ^ E mod n = m"
proof -
  define m' where "m' = (m * (k ^ E mod n)) mod n"
  define s' where "s' = m' ^ D mod n"
  have m'0: "0 \<le> m'" using n by (simp add: m'_def)
  have m'n: "m' mod n = m'" by (simp add: m'_def)
  have "s' ^ E mod n = (m' ^ D) ^ E mod n" by (simp add: s'_def power_mod)
  also have "\<dots> = m' ^ (E * D) mod n" by (simp add: power_mult [symmetric] mult.commute)
  also have "\<dots> = m'" using rsa [OF m'0] m'n by simp
  finally have s'E: "s' ^ E mod n = m'" .
  have "((s' * kinv) mod n) ^ E mod n = (s' * kinv) ^ E mod n" by (rule power_mod)
  also have "\<dots> = (s' ^ E * kinv ^ E) mod n" by (simp add: power_mult_distrib)
  also have "\<dots> = ((s' ^ E mod n) * kinv ^ E) mod n" by (simp add: mod_mult_left_eq)
  also have "\<dots> = ((m * (k ^ E mod n)) mod n * kinv ^ E) mod n" by (simp only: s'E m'_def)
  also have "\<dots> = (m * (k ^ E mod n) * kinv ^ E) mod n" by (simp add: mod_mult_left_eq)
  also have "\<dots> = (m * ((k ^ E mod n) * kinv ^ E)) mod n" by (simp add: mult.assoc)
  also have "\<dots> = (m * (((k ^ E mod n) * kinv ^ E) mod n)) mod n" by (simp add: mod_mult_right_eq)
  also have "((k ^ E mod n) * kinv ^ E) mod n = (k ^ E * kinv ^ E) mod n"
    by (simp add: mod_mult_left_eq)
  also have "\<dots> = (k * kinv) ^ E mod n" by (simp add: power_mult_distrib)
  also have "\<dots> = ((k * kinv) mod n) ^ E mod n" by (simp add: power_mod)
  also have "\<dots> = 1" using inv n by simp
  finally show ?thesis using m by (simp add: s'_def m'_def)
qed

lemma blind_signature_keys:
  assumes p: "premier p" and q: "premier q" and pq: "p \<noteq> q"
    and e: "0 \<le> e" and d: "0 \<le> d" and ed: "e * d mod ((p - 1) * (q - 1)) = 1"
    and m: "0 \<le> m" "m < p * q"
    and k: "gcd_loop k (p * q) = 1"
  shows "\<exists>s. masquer_signer_demasquer
                \<lparr>Administrateur.public_key = (e, p * q), private_key = (d, p * q)\<rparr> m k = Inr s
             \<and> pow_mod s e (p * q) = Inr m"
proof -
  let ?n = "p * q"
  have n: "1 < ?n" using p q pq by (rule distinct_premiers_phi)
  then have "gcd_loop k ?n = gcd k ?n" by (intro gcd_loop_pos) simp
  with k have "coprime k ?n" by (simp add: coprime_iff_gcd_eq_1)
  with n obtain kinv where kinv: "modinv k ?n = Inr kinv" using modinv_exists by blast
  have inv: "k * kinv mod ?n = 1" using modinv_InrD [OF n kinv] by simp
  have rsa: "x ^ (nat e * nat d) mod ?n = x mod ?n" if "0 \<le> x" for x
    using p q pq e d ed that by (rule rsa_core)
  let ?s = "((((m * (k ^ nat e mod ?n)) mod ?n) ^ nat d mod ?n * kinv) mod ?n)"
  have "masquer_signer_demasquer
          \<lparr>Administrateur.public_key = (e, ?n), private_key = (d, ?n)\<rparr> m k = Inr ?s"
    using n e d
    by (simp add: masquer_signer_demasquer_def signer_aveugle_def pow_mod_nonneg kinv)
  moreover have "pow_mod ?s e ?n = Inr m"
    using blind_core [of "nat e" "nat d" ?n k kinv m, OF rsa inv n m] n e
    by (simp add: pow_mod_nonneg)
  ultimately show ?thesis by blast
qed


text \<open>
  C1, as stated, fails: \<open>generate_keypair(1024)\<close> can return \<open>((65537, 9), (1, 9))\<close>; for
  the message \<open>m = 3\<close> and the blinding factor \<open>k = 2\<close>, which is coprime to 9, the
  unblinded signature is 3 and verifies to 0, not to \<open>m\<close>.
\<close>

theorem blind_signature_round_trip_counterexample:
  "generate_keypair 1024 [3, 3] = Some (Inr (((65537, 9), (1, 9)), []))
   \<and> (0::int) \<le> 3 \<and> (3::int) < 9 \<and> (2::int) \<le> 2 \<and> (2::int) \<le> 9 - 2 \<and> gcd_loop 2 9 = 1
   \<and> masquer_signer_demasquer
         \<lparr>Administrateur.public_key = (65537, 9), private_key = (1, 9)\<rparr> 3 2 = Inr 3
   \<and> pow_mod 3 65537 9 = Inr 0 \<and> (0::int) \<noteq> 3"
  by code_simp

text \<open>
  C1, amended. For every Administrateur key pair \<open>((e, n), (d, n))\<close> that
  \<open>generate_keypair\<close> returns after drawing two distinct numbers \<open>p\<close> and \<open>q\<close> that are
  prime, every message \<open>m\<close> with \<open>0 \<le> m < n\<close> and every blinding factor \<open>k\<close> with
  \<open>2 \<le> k \<le> n - 2\<close> and \<open>gcd(k, n) = 1\<close>: masking \<open>m\<close>, signing with \<open>signer_aveugle\<close> and
  unmasking give a signature \<open>s\<close> with \<open>s^e mod n = m\<close>.
\<close>

theorem blind_signature_round_trip:
  assumes gp: "generate_large_prime (bits div 2) t = Some (Inr (p, t1))"
    and gq: "generate_large_prime (bits div 2) t1 = Some (Inr (q, t2))"
    and p: "premier p" and q: "premier q" and pq: "p \<noteq> q"
    and kp: "generate_keypair bits t = Some (Inr (((e, n), (d, n')), t3))"
    and m: "0 \<le> m" "m < n"
    and k: "2 \<le> k" "k \<le> n - 2" "gcd_loop k n = 1"
  shows "\<exists>s. masquer_signer_demasquer
                \<lparr>Administrateur.public_key = (e, n), private_key = (d, n')\<rparr> m k = Inr s
             \<and> pow_mod s e n = Inr m"
proof -
  have phi: "1 < (p - 1) * (q - 1)" using p q pq by (rule distinct_premiers_phi)
  from generate_keypair_cases [OF gp gq phi] kp
  have n: "n = p * q" "n' = p * q" and e: "0 \<le> e" and d: "0 \<le> d"
    and ed: "e * d mod ((p - 1) * (q - 1)) = 1" by auto
  from m k show ?thesis unfolding n
    by (intro blind_signature_keys [OF p q pq e d ed]) simp_all
qed

theorem blind_signature_round_trip_witness:
  "generate_large_prime (8 div 2) [7, 2, 2, 2, 2, 2, 11, 2, 2, 2, 2, 2] = Some (Inr (7, [11, 2, 2, 2, 2, 2]))
   \<and> generate_large_prime (8 div 2) [11, 2, 2, 2, 2, 2] = Some (Inr (11, []))
   \<and> premier 7 \<and> premier 11 \<and> (7::int) \<noteq> 11
   \<and> generate_keypair 8 [7, 2, 2, 2, 2, 2, 11, 2, 2, 2, 2, 2] = Some (Inr (((65537, 77), (53, 77)), []))
   \<and> (0::int) \<le> 10 \<and> (10::int) < 77 \<and> (2::int) \<le> 2 \<and> (2::int) \<le> 77 - 2 \<and> gcd_loop 2 77 = 1
   \<and> masquer_signer_demasquer
         \<lparr>Administrateur.public_key = (65537, 77), private_key = (53, 77)\<rparr> 10 2 = Inr 54
   \<and> pow_mod 54 65537 77 = Inr 10"
proof -
  have gp: "generate_large_prime (8 div 2) [7, 2, 2, 2, 2, 2, 11, 2, 2, 2, 2, 2] = Some (Inr (7, [11, 2, 2, 2, 2, 2]))"
    by code_simp
  have gq: "generate_large_prime (8 div 2) [11, 2, 2, 2, 2, 2] = Some (Inr (11, []))"
    by code_simp
  have p: "premier 7" and q: "premier 11" by code_simp+
  have kp: "generate_keypair 8 [7, 2, 2, 2, 2, 2, 11, 2, 2, 2, 2, 2] = Some (Inr (((65537, 77), (53, 77)), []))"
    by code_simp
  have g: "gcd_loop 2 77 = 1" by code_simp
  have s: "masquer_signer_demasquer
         \<lparr>Administrateur.public_key = (65537, 77), private_key = (53, 77)\<rparr> 10 2 = Inr 54"
    by code_simp
  from blind_signature_round_trip [OF gp gq p q _ kp _ _ _ _ g, of 10] s
  have "pow_mod 54 65537 77 = Inr 10" by simp
  with gp gq p q kp g s show ?thesis by simp
qed

end
